theory Spec2Isabelle
  imports Main "HOL-Library.Multiset"
begin

section \<open>Data model\<close>

text \<open>
  \<^verbatim>\<open>arcpy.da.TableToNumPyArray(in_drainage_line, ['HydroID', 'NextDownID'])\<close> yields a
  structured array: one record per drainage line, in table order, with the two integer
  fields. The identifiers are only compared, sorted and copied, never computed with, so
  they are modelled as unbounded integers.
\<close>

record np_row =
  HydroID :: int
  NextDownID :: int

text \<open>The only exception the body of \<^verbatim>\<open>execute\<close> can raise by itself: \<^verbatim>\<open>[0]\<close> on an empty selection.\<close>

datatype error = IndexError

text \<open>The two variables the first loop of \<^verbatim>\<open>execute\<close> updates.\<close>

record loop_state =
  list_all_rows :: "int list list"
  max_count_Upstream :: int

text \<open>
  What \<^verbatim>\<open>execute\<close> leaves behind: the final value of \<^verbatim>\<open>in_max_nbr_upstreams\<close> (the width
  used for padding) and the rows handed to \<^verbatim>\<open>connectwriter.writerow\<close>, in order.
\<close>

record tool_output =
  in_max_nbr_upstreams :: int
  csv_rows :: "int list list"

text \<open>A tool parameter as \<^verbatim>\<open>updateMessages\<close> reads it; \<^verbatim>\<open>value\<close> is \<^verbatim>\<open>None\<close> when left empty.\<close>

record parameter =
  altered :: bool
  param_value :: "int option"

section \<open>The tool's execute method\<close>

text \<open>\<^verbatim>\<open>np_table[np_table[next_down_id]==hydroid][stream_id]\<close>\<close>

definition list_upstreamID :: "np_row list \<Rightarrow> int \<Rightarrow> int list" where
  "list_upstreamID np_table hydroid =
     map HydroID (filter (\<lambda>r. NextDownID r = hydroid) np_table)"

text \<open>\<^verbatim>\<open>np_table[np_table[stream_id]==hydroid][next_down_id][0]\<close>\<close>

definition first_nextDownID :: "np_row list \<Rightarrow> int \<Rightarrow> error + int" where
  "first_nextDownID np_table hydroid =
     (case map NextDownID (filter (\<lambda>r. HydroID r = hydroid) np_table) of
        [] \<Rightarrow> Inl IndexError
      | d # _ \<Rightarrow> Inr d)"

text \<open>
  The row appended to \<^verbatim>\<open>list_all\<close>: the sentinel \<^verbatim>\<open>-1\<close> of \<^verbatim>\<open>nextDownID\<close> is replaced by
  \<^verbatim>\<open>0\<close>, then
  \<^verbatim>\<open>NUM.concatenate([NUM.array([hydroid,nextDownID,count_upstream]),list_upstreamID])\<close>.
\<close>

definition row_of :: "int \<Rightarrow> int \<Rightarrow> int list \<Rightarrow> int list" where
  "row_of hydroid nextDownID ups =
     [hydroid, (if nextDownID = - 1 then 0 else nextDownID), int (length ups)] @ ups"

text \<open>One pass of the body of \<^verbatim>\<open>for hydroid in NUM.sort(np_table[stream_id])\<close>.\<close>

definition loop_body :: "np_row list \<Rightarrow> int \<Rightarrow> loop_state \<Rightarrow> error + loop_state" where
  "loop_body np_table hydroid s =
     (let ups = list_upstreamID np_table hydroid;
          count_upstream = int (length ups);
          m = (if count_upstream > max_count_Upstream s then count_upstream
               else max_count_Upstream s)
      in case first_nextDownID np_table hydroid of
           Inl e \<Rightarrow> Inl e
         | Inr nextDownID \<Rightarrow>
             Inr \<lparr>list_all_rows = list_all_rows s @ [row_of hydroid nextDownID ups],
                  max_count_Upstream = m\<rparr>)"

fun loop :: "np_row list \<Rightarrow> int list \<Rightarrow> loop_state \<Rightarrow> error + loop_state" where
  "loop np_table [] s = Inr s"
| "loop np_table (hydroid # rest) s =
     (case loop_body np_table hydroid s of
        Inl e \<Rightarrow> Inl e
      | Inr s' \<Rightarrow> loop np_table rest s')"

text \<open>
  \<^verbatim>\<open>NUM.concatenate([row_list, NUM.array([0 for i in xrange(w - row_list[2])])])\<close>:
  \<^verbatim>\<open>xrange\<close> of a negative number is empty, so the row is then written as it is.
  Every row built by the loop has at least three fields, so \<^verbatim>\<open>row_list[2]\<close> is in range.
\<close>

definition pad_row :: "int \<Rightarrow> int list \<Rightarrow> int list" where
  "pad_row w row_list = row_list @ replicate (nat (w - row_list ! 2)) 0"

definition execute :: "np_row list \<Rightarrow> int option \<Rightarrow> error + tool_output" where
  "execute np_table max_nbr =
     (case loop np_table (sort (map HydroID np_table))
             \<lparr>list_all_rows = [], max_count_Upstream = 0\<rparr> of
        Inl e \<Rightarrow> Inl e
      | Inr s \<Rightarrow>
          (let w = (case max_nbr of None \<Rightarrow> max_count_Upstream s | Some n \<Rightarrow> n)
           in Inr \<lparr>in_max_nbr_upstreams = w,
                   csv_rows = map (pad_row w) (list_all_rows s)\<rparr>))"

section \<open>The tool's validation of the third parameter\<close>

text \<open>
  The last block of \<^verbatim>\<open>updateMessages\<close>; the result is the error message set on
  \<^verbatim>\<open>parameters[2]\<close>, if any. The tool runs on Python 2 (it uses \<^verbatim>\<open>xrange\<close>), where
  \<^verbatim>\<open>None < 0\<close> is true and \<^verbatim>\<open>None > 12\<close> is false.
\<close>

definition updateMessages_max_nbr :: "parameter \<Rightarrow> string option" where
  "updateMessages_max_nbr p =
     (if altered p then
        (let max_nbr = param_value p in
         if (case max_nbr of None \<Rightarrow> True | Some n \<Rightarrow> n < 0)
            \<or> (case max_nbr of None \<Rightarrow> False | Some n \<Rightarrow> n > 12)
         then Some ''Input Maximum Number of Upstreams must be within [1, 12]''
         else None)
      else None)"

section \<open>The example network\<close>

definition example_table :: "np_row list" where
  "example_table =
     [\<lparr>HydroID = 1, NextDownID = - 1\<rparr>, \<lparr>HydroID = 2, NextDownID = 1\<rparr>,
      \<lparr>HydroID = 3, NextDownID = 1\<rparr>, \<lparr>HydroID = 4, NextDownID = 2\<rparr>]"


section \<open>Further networks used as concrete inputs\<close>

text \<open>
  A single reach that names itself as its downstream reach.
\<close>

definition self_loop_table :: "np_row list" where
  "self_loop_table = [\<lparr>HydroID = 5, NextDownID = 5\<rparr>]"

text \<open>
  Two drainage lines share HydroID 1; only the first of them flows into reach 7.
\<close>

definition duplicate_table :: "np_row list" where
  "duplicate_table =
     [\<lparr>HydroID = 1, NextDownID = 7\<rparr>, \<lparr>HydroID = 1, NextDownID = 8\<rparr>,
      \<lparr>HydroID = 7, NextDownID = - 1\<rparr>]"

text \<open>
  Downstream identifiers that match no reach: a negative one other than the sentinel,
  and a positive one.
\<close>

definition stray_table :: "np_row list" where
  "stray_table =
     [\<lparr>HydroID = 1, NextDownID = - 2\<rparr>, \<lparr>HydroID = 2, NextDownID = 99\<rparr>,
      \<lparr>HydroID = 3, NextDownID = - 1\<rparr>]"

section \<open>Closed forms of what the loops compute\<close>

text \<open>
  These three notions are used in the proofs only: the row the first loop builds for a
  HydroID of the table, the number of upstream reaches of a HydroID, and the width the
  second loop pads to. The lemmas \<open>loop_closed\<close> and \<open>execute_closed\<close> relate them to
  \<open>loop\<close> and \<open>execute\<close>.
\<close>

definition the_row :: "np_row list \<Rightarrow> int \<Rightarrow> int list" where
  "the_row t h = row_of h (NextDownID (the (find (\<lambda>r. HydroID r = h) t))) (list_upstreamID t h)"

definition fan_in :: "np_row list \<Rightarrow> int \<Rightarrow> int" where
  "fan_in t h = int (length (list_upstreamID t h))"

definition width_used :: "np_row list \<Rightarrow> int option \<Rightarrow> int" where
  "width_used t w =
     (case w of None \<Rightarrow> Max (insert 0 (fan_in t ` HydroID ` set t)) | Some n \<Rightarrow> n)"

section \<open>The selection of the first matching row\<close>

lemma first_nextDownID_find:
  "first_nextDownID t h =
     (case find (\<lambda>r. HydroID r = h) t of
        None \<Rightarrow> Inl IndexError
      | Some r \<Rightarrow> Inr (NextDownID r))"
  by (induction t) (auto simp: first_nextDownID_def)

lemma find_mem_ex:
  "h \<in> HydroID ` set t \<Longrightarrow> \<exists>r. find (\<lambda>r. HydroID r = h) t = Some r"
  by (induction t) auto

lemma find_distinct:
  "distinct (map HydroID t) \<Longrightarrow> r \<in> set t \<Longrightarrow> find (\<lambda>x. HydroID x = HydroID r) t = Some r"
  by (induction t) auto

section \<open>The first loop and the whole method in closed form\<close>

lemma loop_body_closed:
  "h \<in> HydroID ` set t \<Longrightarrow>
   loop_body t h s =
     Inr \<lparr>list_all_rows = list_all_rows s @ [the_row t h],
          max_count_Upstream = max (max_count_Upstream s) (fan_in t h)\<rparr>"
  using find_mem_ex[of h t]
  by (auto simp: loop_body_def first_nextDownID_find the_row_def fan_in_def Let_def max_def)

lemma loop_closed:
  "set hs \<subseteq> HydroID ` set t \<Longrightarrow>
   loop t hs s =
     Inr \<lparr>list_all_rows = list_all_rows s @ map (the_row t) hs,
          max_count_Upstream = Max (insert (max_count_Upstream s) (fan_in t ` set hs))\<rparr>"
proof (induction hs arbitrary: s)
  case Nil
  then show ?case by simp
next
  case (Cons h hs)
  have h: "h \<in> HydroID ` set t" and hs: "set hs \<subseteq> HydroID ` set t"
    using Cons.prems by auto
  have m: "Max (insert (max (max_count_Upstream s) (fan_in t h)) (fan_in t ` set hs))
         = Max (insert (max_count_Upstream s) (fan_in t ` set (h # hs)))"
    by (cases "set hs = {}") (simp_all add: max.assoc max.commute max.left_commute)
  show ?case
    by (simp add: loop_body_closed[OF h] Cons.IH[OF hs] m)
qed

lemma execute_closed:
  "execute t w =
     Inr \<lparr>in_max_nbr_upstreams = width_used t w,
          csv_rows = map (\<lambda>h. pad_row (width_used t w) (the_row t h)) (sort (map HydroID t))\<rparr>"
proof -
  have sub: "set (sort (map HydroID t)) \<subseteq> HydroID ` set t" by simp
  show ?thesis
    by (cases w) (simp_all add: execute_def loop_closed[OF sub] width_used_def)
qed

lemma csv_rows_closed:
  "execute t w = Inr out \<Longrightarrow>
   csv_rows out = map (\<lambda>h. pad_row (width_used t w) (the_row t h)) (sort (map HydroID t))
   \<and> in_max_nbr_upstreams out = width_used t w"
  by (auto simp: execute_closed)

lemma execute_total: "\<exists>out. execute t w = Inr out"
  by (simp add: execute_closed)

lemma row_cases:
  "execute t w = Inr out \<Longrightarrow> row \<in> set (csv_rows out) \<Longrightarrow>
   \<exists>h \<in> HydroID ` set t. row = pad_row (width_used t w) (the_row t h)"
  by (auto simp: execute_closed)

section \<open>The fields of a written row\<close>

lemma the_row_fields:
  "the_row t h ! 0 = h"
  "the_row t h ! 2 = fan_in t h"
  "drop 3 (the_row t h) = list_upstreamID t h"
  "length (the_row t h) = 3 + length (list_upstreamID t h)"
  by (simp_all add: the_row_def row_of_def fan_in_def)

lemma pad_row_the_row:
  "pad_row w (the_row t h) =
     the_row t h @ replicate (nat (w - fan_in t h)) 0"
  by (simp add: pad_row_def the_row_fields)

lemma padded_fields:
  "pad_row w (the_row t h) ! 0 = h"
  "pad_row w (the_row t h) ! 2 = fan_in t h"
  "pad_row w (the_row t h) ! 1 = the_row t h ! 1"
  "drop 3 (pad_row w (the_row t h)) = list_upstreamID t h @ replicate (nat (w - fan_in t h)) 0"
  "length (pad_row w (the_row t h)) = 3 + length (list_upstreamID t h) + nat (w - fan_in t h)"
  by (simp_all add: pad_row_the_row nth_append the_row_fields)

lemma padded_down:
  "find (\<lambda>r. HydroID r = h) t = Some r \<Longrightarrow>
   pad_row w (the_row t h) ! 1 = (if NextDownID r = - 1 then 0 else NextDownID r)"
  by (simp add: pad_row_def the_row_def row_of_def nth_append)

lemma first_column:
  "map (\<lambda>row. row ! 0) (map (\<lambda>h. pad_row w (the_row t h)) hs) = hs"
  by (induction hs) (simp_all add: padded_fields)

lemma first_column_sort:
  "execute t w = Inr out \<Longrightarrow> map (\<lambda>row. row ! 0) (csv_rows out) = sort (map HydroID t)"
  by (metis csv_rows_closed first_column)

lemma third_column:
  "map (\<lambda>row. row ! 2) (map (\<lambda>h. pad_row w (the_row t h)) hs) = map (fan_in t) hs"
  by (simp add: padded_fields)

lemma rows_with_id:
  "filter (\<lambda>row. row ! 0 = h) (map (\<lambda>h. pad_row w (the_row t h)) hs)
     = map (\<lambda>h. pad_row w (the_row t h)) (filter (\<lambda>x. x = h) hs)"
  by (induction hs) (simp_all add: padded_fields)

section \<open>Counting rows and edges\<close>

lemma length_filter_eq_count:
  "length (filter (\<lambda>x. x = h) xs) = count (mset xs) h"
  by (induction xs) simp_all

lemma occurrences_sort:
  "length (filter (\<lambda>x. x = h) (sort (map HydroID t))) = length (filter (\<lambda>r. HydroID r = h) t)"
proof -
  have "length (filter (\<lambda>x. x = h) (sort (map HydroID t))) = count (mset (map HydroID t)) h"
    by (simp add: length_filter_eq_count)
  also have "\<dots> = length (filter (\<lambda>r. HydroID r = h) t)"
    by (induction t) simp_all
  finally show ?thesis .
qed

lemma occurrences_distinct:
  "distinct (map HydroID t) \<Longrightarrow> r \<in> set t \<Longrightarrow> length (filter (\<lambda>x. HydroID x = HydroID r) t) = 1"
  by (induction t) (auto simp: filter_empty_conv image_iff)

lemma length_filter_disj:
  "(\<And>x. x \<in> set t \<Longrightarrow> \<not> (P x \<and> Q x)) \<Longrightarrow>
   length (filter (\<lambda>x. P x \<or> Q x) t) = length (filter P t) + length (filter Q t)"
  by (induction t) auto

lemma sum_fan_in_distinct:
  "distinct hs \<Longrightarrow>
   sum_list (map (fan_in t) hs) = int (length (filter (\<lambda>r. NextDownID r \<in> set hs) t))"
proof (induction hs)
  case Nil
  then show ?case by simp
next
  case (Cons h hs)
  have "length (filter (\<lambda>r. NextDownID r = h \<or> NextDownID r \<in> set hs) t)
        = length (filter (\<lambda>r. NextDownID r = h) t) + length (filter (\<lambda>r. NextDownID r \<in> set hs) t)"
    using Cons.prems by (intro length_filter_disj) auto
  then show ?case using Cons by (simp add: fan_in_def list_upstreamID_def)
qed

lemma sum_fan_in_sort:
  "sum_list (map (fan_in t) (sort hs)) = sum_list (map (fan_in t) hs)"
proof -
  have "mset (map (fan_in t) (sort hs)) = mset (map (fan_in t) hs)" by simp
  then show ?thesis by (metis sum_mset_sum_list)
qed

lemma other_reach_iff:
  assumes "\<forall>r \<in> set t. NextDownID r \<noteq> HydroID r" and "r \<in> set t"
  shows "(\<exists>r' \<in> set t. r' \<noteq> r \<and> HydroID r' = NextDownID r) \<longleftrightarrow> NextDownID r \<in> HydroID ` set t"
  using assms by (auto simp: image_iff) metis+

section \<open>The width\<close>

lemma fan_in_nonneg: "0 \<le> fan_in t h"
  by (simp add: fan_in_def)

lemma width_used_None:
  "t \<noteq> [] \<Longrightarrow> width_used t None = Max (fan_in t ` HydroID ` set t)"
proof -
  assume "t \<noteq> []"
  then obtain r where r: "r \<in> set t" by (cases t) auto
  let ?S = "fan_in t ` HydroID ` set t"
  have ne: "?S \<noteq> {}" and fin: "finite ?S" using r by auto
  have "0 \<le> Max ?S" using fan_in_nonneg[of t "HydroID r"] r fin
    by (meson Max_ge_iff ne imageI)
  then show ?thesis using ne fin by (simp add: width_used_def max_def)
qed

lemma fan_in_le_width_None:
  "h \<in> HydroID ` set t \<Longrightarrow> fan_in t h \<le> width_used t None"
  by (simp add: width_used_def)

section \<open>What the validation of the bound accepts\<close>

lemma updateMessages_max_nbr_error_iff:
  "updateMessages_max_nbr \<lparr>altered = True, param_value = Some n\<rparr> \<noteq> None \<longleftrightarrow> n < 0 \<or> 12 < n"
  by (simp add: updateMessages_max_nbr_def)

section \<open>The worked example\<close>

text \<open>
  C1: on the reaches (1,-1), (2,1), (3,1), (4,2) with no width given, the tool raises
  nothing, uses width 2 (the largest fan-in) and writes exactly the rows
  1,0,2,2,3 / 2,1,1,4,0 / 3,1,0,0,0 / 4,2,0,0,0 in this order.
\<close>

theorem example_rows:
  "execute example_table None =
     Inr \<lparr>in_max_nbr_upstreams = 2,
          csv_rows = [[1, 0, 2, 2, 3], [2, 1, 1, 4, 0], [3, 1, 0, 0, 0], [4, 2, 0, 0, 0]]\<rparr>"
  by code_simp

section \<open>A bound below the fan-in\<close>

text \<open>
  C2, as stated, fails: with the bound 1 on the example network, reach 1 has two
  upstream reaches, yet \<open>execute\<close> returns normally. The row of reach 1 is written with
  both upstream IDs and no padding; the other rows are padded to width 1.
\<close>

theorem narrow_bound_counterexample:
  "execute example_table (Some 1) =
     Inr \<lparr>in_max_nbr_upstreams = 1,
          csv_rows = [[1, 0, 2, 2, 3], [2, 1, 1, 4], [3, 1, 0, 0], [4, 2, 0, 0]]\<rparr>
   \<and> (1::int) < int (length (list_upstreamID example_table 1))"
  by code_simp

text \<open>
  C2, amended: whatever bound is supplied, \<open>execute\<close> raises no error; every reach has a
  row; every row carries its upstream count and all its upstream IDs, in table order,
  right after the third field (nothing is cut off); and the row of a reach whose
  upstream count exceeds the bound is written unpadded, so it is longer than 3 + bound
  fields.
\<close>

theorem narrow_bound_keeps_upstreams:
  "\<exists>out. execute t (Some w) = Inr out
      \<and> (\<forall>r \<in> set t. \<exists>row \<in> set (csv_rows out). row ! 0 = HydroID r)
      \<and> (\<forall>row \<in> set (csv_rows out).
            row ! 2 = int (length (list_upstreamID t (row ! 0)))
          \<and> take (length (list_upstreamID t (row ! 0))) (drop 3 row) = list_upstreamID t (row ! 0)
          \<and> (w < int (length (list_upstreamID t (row ! 0))) \<longrightarrow>
               drop 3 row = list_upstreamID t (row ! 0)
             \<and> int (length row) > 3 + w))"
proof -
  obtain out where out: "execute t (Some w) = Inr out" using execute_total by blast
  have W: "width_used t (Some w) = w" by (simp add: width_used_def)
  have each: "\<exists>row \<in> set (csv_rows out). row ! 0 = HydroID r" if "r \<in> set t" for r
  proof -
    have "pad_row w (the_row t (HydroID r)) \<in> set (csv_rows out)"
      using that csv_rows_closed[OF out] by (simp add: W)
    then show ?thesis using padded_fields(1) by blast
  qed
  have fields: "row ! 2 = int (length (list_upstreamID t (row ! 0)))
          \<and> take (length (list_upstreamID t (row ! 0))) (drop 3 row) = list_upstreamID t (row ! 0)
          \<and> (w < int (length (list_upstreamID t (row ! 0))) \<longrightarrow>
               drop 3 row = list_upstreamID t (row ! 0)
             \<and> int (length row) > 3 + w)"
    if mem: "row \<in> set (csv_rows out)" for row
  proof -
    obtain h where h: "row = pad_row w (the_row t h)"
      using row_cases[OF out mem] by (auto simp: W)
    have first: "row ! 0 = h" by (simp add: h padded_fields)
    show ?thesis unfolding first
      by (simp add: h padded_fields fan_in_def)
  qed
  show ?thesis using out each fields by blast
qed

text \<open>
  The bound 1 on the example network: reach 1 has two upstream reaches, and its row
  ends with both of them.
\<close>

theorem narrow_bound_keeps_upstreams_witness:
  "(1::int) < int (length (list_upstreamID example_table 1))
   \<and> (\<exists>out. execute example_table (Some 1) = Inr out
          \<and> (\<exists>row \<in> set (csv_rows out). row ! 0 = 1 \<and> drop 3 row = [2, 3]))"
proof -
  have ups: "list_upstreamID example_table 1 = [2, 3]"
    by (simp add: list_upstreamID_def example_table_def)
  have r: "\<lparr>HydroID = 1, NextDownID = - 1\<rparr> \<in> set example_table"
    by (simp add: example_table_def)
  obtain out where out: "execute example_table (Some 1) = Inr out"
    and each: "\<forall>r \<in> set example_table. \<exists>row \<in> set (csv_rows out). row ! 0 = HydroID r"
    and fields: "\<forall>row \<in> set (csv_rows out).
            row ! 2 = int (length (list_upstreamID example_table (row ! 0)))
          \<and> take (length (list_upstreamID example_table (row ! 0))) (drop 3 row)
              = list_upstreamID example_table (row ! 0)
          \<and> (1 < int (length (list_upstreamID example_table (row ! 0))) \<longrightarrow>
               drop 3 row = list_upstreamID example_table (row ! 0)
             \<and> int (length row) > 3 + 1)"
    using narrow_bound_keeps_upstreams[of example_table 1] by blast
  obtain row where row: "row \<in> set (csv_rows out)" "row ! 0 = 1"
    using each r by fastforce
  then have "drop 3 row = [2, 3]" using fields ups by fastforce
  then show ?thesis using out row ups by auto
qed

section \<open>Width and row length\<close>

text \<open>
  C3, as stated, fails: with the bound 1 on the example network the width is 1, but the
  rows have 5, 4, 4 and 4 fields: the first is not 3 + 1 long, and the lengths differ.
\<close>

theorem width_counterexample:
  "(case execute example_table (Some 1) of
      Inl e \<Rightarrow> False
    | Inr out \<Rightarrow> in_max_nbr_upstreams out = 1 \<and> map length (csv_rows out) = [5, 4, 4, 4])"
  by code_simp

text \<open>
  C3, amended: on a non-empty table the width is the supplied bound, or else the largest
  upstream count over the reaches; every row has 3 + max(width, its own upstream count)
  fields. Hence all rows have exactly 3 + width fields when no reach has more upstream
  reaches than the width, which is always so when no bound is supplied.
\<close>

theorem width_and_row_length:
  assumes "t \<noteq> []"
  shows "\<exists>out. execute t w = Inr out
      \<and> in_max_nbr_upstreams out =
          (case w of
             Some n \<Rightarrow> n
           | None \<Rightarrow> Max ((\<lambda>h. int (length (list_upstreamID t h))) ` HydroID ` set t))
      \<and> (\<forall>row \<in> set (csv_rows out).
            int (length row) = 3 + max (in_max_nbr_upstreams out) (row ! 2))
      \<and> ((\<forall>r \<in> set t. int (length (list_upstreamID t (HydroID r))) \<le> in_max_nbr_upstreams out)
            \<longrightarrow> (\<forall>row \<in> set (csv_rows out). int (length row) = 3 + in_max_nbr_upstreams out))
      \<and> (w = None \<longrightarrow>
            (\<forall>row \<in> set (csv_rows out). int (length row) = 3 + in_max_nbr_upstreams out))"
proof -
  obtain out where out: "execute t w = Inr out" using execute_total by blast
  let ?W = "width_used t w"
  have width: "in_max_nbr_upstreams out = ?W" using csv_rows_closed[OF out] by simp
  have fan: "fan_in t = (\<lambda>h. int (length (list_upstreamID t h)))"
    by (simp add: fan_in_def fun_eq_iff)
  have w1: "?W = (case w of Some n \<Rightarrow> n
           | None \<Rightarrow> Max ((\<lambda>h. int (length (list_upstreamID t h))) ` HydroID ` set t))"
  proof (cases w)
    case None
    then show ?thesis using width_used_None[OF assms] by (simp add: fan)
  next
    case (Some n)
    then show ?thesis by (simp add: width_used_def)
  qed
  have len: "int (length row) = 3 + max ?W (row ! 2)
             \<and> (\<exists>r \<in> set t. row ! 2 = int (length (list_upstreamID t (HydroID r))))"
    if mem: "row \<in> set (csv_rows out)" for row
  proof -
    obtain h where h: "h \<in> HydroID ` set t" "row = pad_row ?W (the_row t h)"
      using row_cases[OF out mem] by blast
    show ?thesis using h(1)
      by (auto simp: h(2) padded_fields fan_in_def)
  qed
  have bounded: "int (length row) = 3 + ?W"
    if le: "\<forall>r \<in> set t. int (length (list_upstreamID t (HydroID r))) \<le> ?W"
      and mem: "row \<in> set (csv_rows out)" for row
  proof -
    obtain r where "r \<in> set t" "row ! 2 = int (length (list_upstreamID t (HydroID r)))"
      using len[OF mem] by blast
    then have "row ! 2 \<le> ?W" using le by simp
    then show ?thesis using len[OF mem] by simp
  qed
  have none: "\<forall>r \<in> set t. int (length (list_upstreamID t (HydroID r))) \<le> ?W" if "w = None"
    using fan_in_le_width_None[of _ t] that by (auto simp: fan_in_def)
  have A: "in_max_nbr_upstreams out =
          (case w of
             Some n \<Rightarrow> n
           | None \<Rightarrow> Max ((\<lambda>h. int (length (list_upstreamID t h))) ` HydroID ` set t))"
    using w1 width by simp
  have B: "\<forall>row \<in> set (csv_rows out).
            int (length row) = 3 + max (in_max_nbr_upstreams out) (row ! 2)"
    using len width by simp
  have C: "(\<forall>r \<in> set t. int (length (list_upstreamID t (HydroID r))) \<le> in_max_nbr_upstreams out)
            \<longrightarrow> (\<forall>row \<in> set (csv_rows out). int (length row) = 3 + in_max_nbr_upstreams out)"
    using bounded width by simp
  have D: "w = None \<longrightarrow>
            (\<forall>row \<in> set (csv_rows out). int (length row) = 3 + in_max_nbr_upstreams out)"
    using none bounded width by simp
  show ?thesis using out A B C D by blast
qed

text \<open>
  The bound 5 on the example network: width 5, and the first row is 1,0,2,2,3,0,0,0.
\<close>

theorem width_and_row_length_witness:
  "example_table \<noteq> []
   \<and> (\<exists>out. execute example_table (Some 5) = Inr out
          \<and> in_max_nbr_upstreams out = 5
          \<and> csv_rows out ! 0 = [1, 0, 2, 2, 3, 0, 0, 0]
          \<and> int (length (csv_rows out ! 0)) = 3 + in_max_nbr_upstreams out)"
proof -
  have ne: "example_table \<noteq> []" by (simp add: example_table_def)
  have ev: "execute example_table (Some 5) =
     Inr \<lparr>in_max_nbr_upstreams = 5,
          csv_rows = [[1, 0, 2, 2, 3, 0, 0, 0], [2, 1, 1, 4, 0, 0, 0, 0],
                      [3, 1, 0, 0, 0, 0, 0, 0], [4, 2, 0, 0, 0, 0, 0, 0]]\<rparr>"
    by code_simp
  obtain out where out: "execute example_table (Some 5) = Inr out"
    and width: "in_max_nbr_upstreams out = 5"
    using width_and_row_length[OF ne, of "Some 5"] by auto
  show ?thesis using ne out width ev by auto
qed

section \<open>The downstream field\<close>



section \<open>One row per reach\<close>

text \<open>
  C5: on a non-empty table with unique HydroIDs, there are as many output rows as
  reaches, each reach's HydroID is the first field of exactly one row, and every row
  starts with the HydroID of some reach.
\<close>

theorem one_row_per_reach:
  assumes "t \<noteq> []" and "distinct (map HydroID t)"
  shows "\<exists>out. execute t w = Inr out
           \<and> length (csv_rows out) = length t
           \<and> (\<forall>r \<in> set t. length (filter (\<lambda>row. row ! 0 = HydroID r) (csv_rows out)) = 1)
           \<and> (\<forall>row \<in> set (csv_rows out). row ! 0 \<in> HydroID ` set t)"
proof -
  obtain out where out: "execute t w = Inr out" using execute_total by blast
  let ?W = "width_used t w"
  have rows: "csv_rows out = map (\<lambda>h. pad_row ?W (the_row t h)) (sort (map HydroID t))"
    using csv_rows_closed[OF out] by simp
  have len: "length (csv_rows out) = length t" by (simp add: rows)
  have once: "length (filter (\<lambda>row. row ! 0 = HydroID r) (csv_rows out)) = 1" if "r \<in> set t" for r
    using occurrences_distinct[OF assms(2) that]
    by (simp add: rows rows_with_id occurrences_sort)
  have ids: "row ! 0 \<in> HydroID ` set t" if "row \<in> set (csv_rows out)" for row
    using row_cases[OF out that] by (metis padded_fields(1))
  show ?thesis using out len once ids by blast
qed

text \<open>
  The example network has four reaches and four rows.
\<close>

theorem one_row_per_reach_witness:
  "example_table \<noteq> [] \<and> distinct (map HydroID example_table)
   \<and> (\<exists>out. execute example_table None = Inr out \<and> length (csv_rows out) = 4)"
proof -
  have ne: "example_table \<noteq> []" by (simp add: example_table_def)
  have d: "distinct (map HydroID example_table)" by (simp add: example_table_def)
  have "length example_table = 4" by (simp add: example_table_def)
  then show ?thesis using one_row_per_reach[OF ne d, of None] ne d by auto
qed

section \<open>Row order\<close>

text \<open>
  C6: when the HydroIDs are unique, the first fields of the output rows are strictly
  increasing, and any reordering of the table's rows gives the same first column.
\<close>

theorem rows_ascending:
  assumes "distinct (map HydroID t)"
  shows "\<exists>out. execute t w = Inr out
           \<and> sorted_wrt (<) (map (\<lambda>row. row ! 0) (csv_rows out))
           \<and> (\<forall>t'. mset t' = mset t \<longrightarrow>
                 (\<exists>out'. execute t' w = Inr out'
                    \<and> map (\<lambda>row. row ! 0) (csv_rows out') = map (\<lambda>row. row ! 0) (csv_rows out)))"
proof -
  obtain out where out: "execute t w = Inr out" using execute_total by blast
  have col: "map (\<lambda>row. row ! 0) (csv_rows out) = sort (map HydroID t)"
    using out by (rule first_column_sort)
  have asc: "sorted_wrt (<) (map (\<lambda>row. row ! 0) (csv_rows out))"
    using assms by (simp add: col strict_sorted_iff)
  have perm: "\<exists>out'. execute t' w = Inr out'
                \<and> map (\<lambda>row. row ! 0) (csv_rows out') = map (\<lambda>row. row ! 0) (csv_rows out)"
    if "mset t' = mset t" for t'
  proof -
    obtain out' where out': "execute t' w = Inr out'" using execute_total by blast
    have "mset (map HydroID t') = mset (map HydroID t)" using that by (metis mset_map)
    then have "sort (map HydroID t') = sort (map HydroID t)"
      by (intro properties_for_sort) simp_all
    then show ?thesis using out' col first_column_sort[OF out'] by simp
  qed
  show ?thesis using out asc perm by blast
qed

text \<open>
  The example network listed backwards still gives the first column 1, 2, 3, 4.
\<close>

theorem rows_ascending_witness:
  "distinct (map HydroID (rev example_table))
   \<and> (\<exists>out. execute (rev example_table) None = Inr out
          \<and> sorted_wrt (<) (map (\<lambda>row. row ! 0) (csv_rows out))
          \<and> map (\<lambda>row. row ! 0) (csv_rows out) = [1, 2, 3, 4])"
proof -
  have d: "distinct (map HydroID (rev example_table))" by (simp add: example_table_def)
  have ev: "execute (rev example_table) None =
     Inr \<lparr>in_max_nbr_upstreams = 2,
          csv_rows = [[1, 0, 2, 3, 2], [2, 1, 1, 4, 0], [3, 1, 0, 0, 0], [4, 2, 0, 0, 0]]\<rparr>"
    by code_simp
  obtain out where out: "execute (rev example_table) None = Inr out"
    and asc: "sorted_wrt (<) (map (\<lambda>row. row ! 0) (csv_rows out))"
    using rows_ascending[OF d, of None] by blast
  have col: "map (\<lambda>row. row ! 0) (csv_rows out) = [1, 2, 3, 4]" using out ev by auto
  show ?thesis
    by (intro conjI exI[of _ out]) (rule d out asc col)+
qed

section \<open>The sum of the upstream counts\<close>

text \<open>
  C7, as stated, fails on a reach that is its own downstream reach: the single reach
  (5,5) has unique IDs, its row is 5,5,1,5, so the third column sums to 1, while no reach
  has a NextDownID equal to the HydroID of another reach.
\<close>

theorem self_loop_counterexample:
  "(case execute self_loop_table None of
      Inl e \<Rightarrow> False
    | Inr out \<Rightarrow> csv_rows out = [[5, 5, 1, 5]]
               \<and> sum_list (map (\<lambda>row. row ! 2) (csv_rows out)) = 1)
   \<and> distinct (map HydroID self_loop_table)
   \<and> length (filter (\<lambda>r. \<exists>r' \<in> set self_loop_table. r' \<noteq> r \<and> HydroID r' = NextDownID r)
               self_loop_table) = 0"
  by code_simp

text \<open>
  C7, amended: when the HydroIDs are unique, the third column sums to the number of
  reaches whose NextDownID is the HydroID of some reach of the table, itself included;
  when no reach is its own downstream reach, this is the number of reaches whose
  NextDownID is the HydroID of another reach.
\<close>

theorem edges_counted_once:
  assumes "distinct (map HydroID t)"
  shows "\<exists>out. execute t w = Inr out
           \<and> sum_list (map (\<lambda>row. row ! 2) (csv_rows out))
               = int (length (filter (\<lambda>r. NextDownID r \<in> HydroID ` set t) t))
           \<and> ((\<forall>r \<in> set t. NextDownID r \<noteq> HydroID r) \<longrightarrow>
                sum_list (map (\<lambda>row. row ! 2) (csv_rows out))
                  = int (length (filter (\<lambda>r. \<exists>r' \<in> set t. r' \<noteq> r \<and> HydroID r' = NextDownID r) t)))"
proof -
  obtain out where out: "execute t w = Inr out" using execute_total by blast
  have "map (\<lambda>row. row ! 2) (csv_rows out) = map (fan_in t) (sort (map HydroID t))"
    by (metis csv_rows_closed[OF out] third_column)
  then have "sum_list (map (\<lambda>row. row ! 2) (csv_rows out))
               = sum_list (map (fan_in t) (sort (map HydroID t)))"
    by simp
  also have "\<dots> = sum_list (map (fan_in t) (map HydroID t))"
    by (rule sum_fan_in_sort)
  also have "\<dots> = int (length (filter (\<lambda>r. NextDownID r \<in> set (map HydroID t)) t))"
    using assms by (rule sum_fan_in_distinct)
  finally have total: "sum_list (map (\<lambda>row. row ! 2) (csv_rows out))
      = int (length (filter (\<lambda>r. NextDownID r \<in> HydroID ` set t) t))" by simp
  have "filter (\<lambda>r. \<exists>r' \<in> set t. r' \<noteq> r \<and> HydroID r' = NextDownID r) t
          = filter (\<lambda>r. NextDownID r \<in> HydroID ` set t) t"
    if "\<forall>r \<in> set t. NextDownID r \<noteq> HydroID r"
    by (rule filter_cong[OF refl]) (rule other_reach_iff[OF that])
  then show ?thesis using out total by auto
qed

text \<open>
  The example network has three edges (2 to 1, 3 to 1, 4 to 2): the sum is 3.
\<close>

theorem edges_counted_once_witness:
  "distinct (map HydroID example_table)
   \<and> (\<exists>out. execute example_table None = Inr out
          \<and> sum_list (map (\<lambda>row. row ! 2) (csv_rows out)) = 3)"
proof -
  have d: "distinct (map HydroID example_table)" by (simp add: example_table_def)
  have three: "int (length (filter (\<lambda>r. NextDownID r \<in> HydroID ` set example_table) example_table)) = 3"
    by (simp add: example_table_def)
  obtain out where out: "execute example_table None = Inr out"
    and total: "sum_list (map (\<lambda>row. row ! 2) (csv_rows out))
               = int (length (filter (\<lambda>r. NextDownID r \<in> HydroID ` set example_table) example_table))"
    using edges_counted_once[OF d, of None] by blast
  have "sum_list (map (\<lambda>row. row ! 2) (csv_rows out)) = 3"
    using total three by (rule trans)
  then show ?thesis using d out by blast
qed

section \<open>Validation of the bound\<close>

text \<open>
  C8: the tool should report an error exactly for an altered bound outside [1, 12], as
  its own message says. It reports none for the bound 0: the test is \<open>max_nbr < 0\<close>.
\<close>

theorem zero_bound_accepted:
  "updateMessages_max_nbr \<lparr>altered = True, param_value = Some 0\<rparr> = None"
  by (simp add: updateMessages_max_nbr_def)

section \<open>Shared HydroIDs\<close>

text \<open>
  C9: whatever the table, also when several drainage lines share a HydroID,
  \<open>execute\<close> raises no error; a HydroID is the first field of as many output rows as
  drainage lines bear it; and the second field of every row is taken from the first
  drainage line of the table that bears the row's HydroID (its NextDownID, with the
  sentinel -1 written as 0).
\<close>

theorem duplicate_ids:
  "\<exists>out. execute t w = Inr out
      \<and> (\<forall>h. length (filter (\<lambda>row. row ! 0 = h) (csv_rows out))
               = length (filter (\<lambda>r. HydroID r = h) t))
      \<and> (\<forall>row \<in> set (csv_rows out).
            \<exists>r. find (\<lambda>r. HydroID r = row ! 0) t = Some r
               \<and> row ! 1 = (if NextDownID r = - 1 then 0 else NextDownID r))"
proof -
  obtain out where out: "execute t w = Inr out" using execute_total by blast
  let ?W = "width_used t w"
  have rows: "csv_rows out = map (\<lambda>h. pad_row ?W (the_row t h)) (sort (map HydroID t))"
    using csv_rows_closed[OF out] by simp
  have count: "length (filter (\<lambda>row. row ! 0 = h) (csv_rows out))
               = length (filter (\<lambda>r. HydroID r = h) t)" for h
    by (simp add: rows rows_with_id occurrences_sort)
  have first: "\<exists>r. find (\<lambda>r. HydroID r = row ! 0) t = Some r
               \<and> row ! 1 = (if NextDownID r = - 1 then 0 else NextDownID r)"
    if mem: "row \<in> set (csv_rows out)" for row
  proof -
    obtain h where h: "h \<in> HydroID ` set t" "row = pad_row ?W (the_row t h)"
      using row_cases[OF out mem] by blast
    obtain r where r: "find (\<lambda>r. HydroID r = h) t = Some r"
      using find_mem_ex[OF h(1)] by blast
    have "row ! 0 = h" by (simp add: h(2) padded_fields)
    moreover have "row ! 1 = (if NextDownID r = - 1 then 0 else NextDownID r)"
      unfolding h(2) by (rule padded_down[OF r])
    ultimately show ?thesis using r by auto
  qed
  show ?thesis using out count first by blast
qed

text \<open>
  Two drainage lines with HydroID 1 and NextDownIDs 7 and 8: two rows start with 1, and
  both carry 7.
\<close>

theorem duplicate_ids_witness:
  "\<exists>out. execute duplicate_table None = Inr out
      \<and> length (filter (\<lambda>row. row ! 0 = 1) (csv_rows out)) = 2
      \<and> csv_rows out = [[1, 7, 0, 0], [1, 7, 0, 0], [7, 0, 1, 1]]"
proof -
  have ev: "execute duplicate_table None =
     Inr \<lparr>in_max_nbr_upstreams = 1,
          csv_rows = [[1, 7, 0, 0], [1, 7, 0, 0], [7, 0, 1, 1]]\<rparr>"
    by code_simp
  have two: "length (filter (\<lambda>r. HydroID r = 1) duplicate_table) = 2"
    by (simp add: duplicate_table_def)
  obtain out where out: "execute duplicate_table None = Inr out"
    and count: "\<forall>h. length (filter (\<lambda>row. row ! 0 = h) (csv_rows out))
               = length (filter (\<lambda>r. HydroID r = h) duplicate_table)"
    using duplicate_ids[of duplicate_table None] by blast
  have "length (filter (\<lambda>row. row ! 0 = 1) (csv_rows out)) = 2"
    using count two by simp
  moreover have "csv_rows out = [[1, 7, 0, 0], [1, 7, 0, 0], [7, 0, 1, 1]]"
    using out ev by auto
  ultimately show ?thesis using out by blast
qed

section \<open>Only the sentinel is replaced\<close>

text \<open>
  C10: \<open>execute\<close> raises no error, and the second field of a row differs from the
  NextDownID it is taken from (that of the first drainage line bearing the row's HydroID)
  only when that NextDownID is -1, in which case it is 0. Any other value, negative or
  matching no reach, is written unchanged: with unique HydroIDs, every reach whose
  NextDownID is not -1 has a row carrying exactly that NextDownID.
\<close>

theorem only_sentinel_normalized:
  "\<exists>out. execute t w = Inr out
      \<and> (\<forall>row \<in> set (csv_rows out).
            \<exists>r. find (\<lambda>r. HydroID r = row ! 0) t = Some r
               \<and> (NextDownID r \<noteq> - 1 \<longrightarrow> row ! 1 = NextDownID r)
               \<and> (row ! 1 \<noteq> NextDownID r \<longrightarrow> NextDownID r = - 1 \<and> row ! 1 = 0))
      \<and> (distinct (map HydroID t) \<longrightarrow>
            (\<forall>r \<in> set t. NextDownID r \<noteq> - 1 \<longrightarrow>
               (\<exists>row \<in> set (csv_rows out). row ! 0 = HydroID r \<and> row ! 1 = NextDownID r)))"
proof -
  obtain out where out: "execute t w = Inr out" using execute_total by blast
  let ?W = "width_used t w"
  have first: "\<exists>r. find (\<lambda>r. HydroID r = row ! 0) t = Some r
               \<and> (NextDownID r \<noteq> - 1 \<longrightarrow> row ! 1 = NextDownID r)
               \<and> (row ! 1 \<noteq> NextDownID r \<longrightarrow> NextDownID r = - 1 \<and> row ! 1 = 0)"
    if mem: "row \<in> set (csv_rows out)" for row
  proof -
    obtain h where h: "h \<in> HydroID ` set t" "row = pad_row ?W (the_row t h)"
      using row_cases[OF out mem] by blast
    obtain r where r: "find (\<lambda>r. HydroID r = h) t = Some r"
      using find_mem_ex[OF h(1)] by blast
    have "row ! 0 = h" by (simp add: h(2) padded_fields)
    moreover have "row ! 1 = (if NextDownID r = - 1 then 0 else NextDownID r)"
      unfolding h(2) by (rule padded_down[OF r])
    ultimately show ?thesis using r by auto
  qed
  have reach: "\<exists>row \<in> set (csv_rows out). row ! 0 = HydroID r \<and> row ! 1 = NextDownID r"
    if d: "distinct (map HydroID t)" and r: "r \<in> set t" and n: "NextDownID r \<noteq> - 1" for r
  proof -
    let ?row = "pad_row ?W (the_row t (HydroID r))"
    have "?row \<in> set (csv_rows out)"
      using r csv_rows_closed[OF out] by simp
    moreover have "?row ! 0 = HydroID r" by (simp add: padded_fields)
    moreover have "?row ! 1 = NextDownID r"
      using padded_down[OF find_distinct[OF d r], of ?W] n by simp
    ultimately show ?thesis by blast
  qed
  show ?thesis using out first reach by blast
qed

text \<open>
  NextDownIDs -2 and 99 match no reach and are written as they are; -1 is written as 0.
\<close>

theorem only_sentinel_normalized_witness:
  "distinct (map HydroID stray_table)
   \<and> (\<exists>out. execute stray_table None = Inr out
      \<and> (\<exists>row \<in> set (csv_rows out). row ! 0 = 1 \<and> row ! 1 = - 2)
      \<and> (\<exists>row \<in> set (csv_rows out). row ! 0 = 2 \<and> row ! 1 = 99)
      \<and> csv_rows out = [[1, - 2, 0], [2, 99, 0], [3, 0, 0]])"
proof -
  have d: "distinct (map HydroID stray_table)" by (simp add: stray_table_def)
  have ev: "execute stray_table None =
     Inr \<lparr>in_max_nbr_upstreams = 0, csv_rows = [[1, - 2, 0], [2, 99, 0], [3, 0, 0]]\<rparr>"
    by code_simp
  have r1: "\<lparr>HydroID = 1, NextDownID = - 2\<rparr> \<in> set stray_table"
    and r2: "\<lparr>HydroID = 2, NextDownID = 99\<rparr> \<in> set stray_table"
    by (simp_all add: stray_table_def)
  obtain out where out: "execute stray_table None = Inr out"
    and reach: "\<forall>r \<in> set stray_table. NextDownID r \<noteq> - 1 \<longrightarrow>
               (\<exists>row \<in> set (csv_rows out). row ! 0 = HydroID r \<and> row ! 1 = NextDownID r)"
    using only_sentinel_normalized[of stray_table None] d by blast
  have a: "\<exists>row \<in> set (csv_rows out). row ! 0 = 1 \<and> row ! 1 = - 2"
    using reach r1 by fastforce
  have b: "\<exists>row \<in> set (csv_rows out). row ! 0 = 2 \<and> row ! 1 = 99"
    using reach r2 by fastforce
  have "csv_rows out = [[1, - 2, 0], [2, 99, 0], [3, 0, 0]]" using out ev by auto
  then show ?thesis using d out a b by blast
qed

end
